theory Spec2Isabelle
  imports Main "HOL-Library.Word" "HOL-Library.Multiset" "HOL-Library.Monad_Syntax"
begin

section \<open>Bubble sort on a vector of machine integers\<close>

text \<open>
  The program of \<^verbatim>\<open>bubble_sort.cpp\<close>: \<^verbatim>\<open>bubbleSort\<close> sorts a
  \<^verbatim>\<open>std::vector<int>\<close> in place, \<^verbatim>\<open>printArray\<close> writes a vector to the standard
  output, and \<^verbatim>\<open>main\<close> runs both on a literal vector.

  The vector is a list. An \<^verbatim>\<open>int\<close> is a 32-bit word, read as a signed value by
  \<open>sint\<close> and compared by the signed orders \<open><s\<close> and \<open>\<le>s\<close>. The length of a vector
  is a natural number without bound; \<^verbatim>\<open>int n = arr.size()\<close> narrows it to 32 bits.
  The program has two kinds of undefined behaviour, and a run that meets one has the result
  \<open>None\<close>: an addition or subtraction of \<^verbatim>\<open>int\<close>s whose result is outside the range of
  \<^verbatim>\<open>int\<close>, and a read outside the vector.
\<close>

type_synonym int32 = "32 word"

subsection \<open>Arithmetic on int\<close>

text \<open>
  \<^verbatim>\<open>a + b\<close> and \<^verbatim>\<open>a - b\<close> on \<^verbatim>\<open>int\<close>: the result when the signed values give a
  sum or difference from \<open>- 2 ^ 31\<close> to \<open>2 ^ 31 - 1\<close>, and undefined otherwise.
\<close>

definition int_add :: "int32 \<Rightarrow> int32 \<Rightarrow> int32 option" where
  "int_add a b =
     (if - 2147483648 \<le> sint a + sint b \<and> sint a + sint b \<le> 2147483647
      then Some (a + b) else None)"

definition int_sub :: "int32 \<Rightarrow> int32 \<Rightarrow> int32 option" where
  "int_sub a b =
     (if - 2147483648 \<le> sint a - sint b \<and> sint a - sint b \<le> 2147483647
      then Some (a - b) else None)"

subsection \<open>Element access\<close>

text \<open>
  \<^verbatim>\<open>arr[j]\<close> with an \<^verbatim>\<open>int\<close> index. The index is converted to the unsigned size type,
  so a negative index is far beyond the end of any vector. The subscript operator does not
  check its index: a read outside the vector is undefined.
\<close>

definition subscript :: "'a list \<Rightarrow> int32 \<Rightarrow> 'a option" where
  "subscript arr j =
     (if 0 \<le>s j \<and> nat (sint j) < length arr then Some (arr ! nat (sint j)) else None)"

text \<open>
  \<^verbatim>\<open>std::swap(arr[j], arr[k])\<close> on two elements that were read before: the two cells
  exchange their contents.
\<close>

definition swap :: "'a list \<Rightarrow> int32 \<Rightarrow> int32 \<Rightarrow> 'a list" where
  "swap arr j k =
     (let a = arr ! nat (sint j); b = arr ! nat (sint k)
      in arr[nat (sint j) := b, nat (sint k) := a])"

subsection \<open>bubbleSort\<close>

text \<open>
  The body of the inner loop:
  \<^verbatim>\<open>if (arr[j] > arr[j + 1]) std::swap(arr[j], arr[j + 1]);\<close>
\<close>

definition inner_body :: "int32 list \<Rightarrow> int32 \<Rightarrow> int32 list option" where
  "inner_body arr j = do {
     a \<leftarrow> subscript arr j;
     k \<leftarrow> int_add j 1;
     b \<leftarrow> subscript arr k;
     if b <s a then Some (swap arr j k) else Some arr
   }"

text \<open>
  The inner loop \<^verbatim>\<open>for (int j = 0; j < n - i - 1; j++)\<close>, entered at \<open>j\<close>.
\<close>

function inner_loop :: "int32 list \<Rightarrow> int32 \<Rightarrow> int32 \<Rightarrow> int32 \<Rightarrow> int32 list option" where
  "inner_loop arr n i j = do {
     d \<leftarrow> int_sub n i;
     bound \<leftarrow> int_sub d 1;
     if j <s bound
     then do {
       arr' \<leftarrow> inner_body arr j;
       j' \<leftarrow> int_add j 1;
       inner_loop arr' n i j'
     }
     else Some arr
   }"
  by pat_completeness auto
termination
proof (relation "measure (\<lambda>(arr, n, i, j). nat (sint (n - i - 1) - sint j))")
  fix arr arr' :: "int32 list" and n i j d bound j' :: int32
  assume "int_sub n i = Some d" "int_sub d 1 = Some bound" "j <s bound"
    and "int_add j 1 = Some j'"
  then have "bound = n - i - 1" "sint j < sint bound" "sint j' = sint j + 1"
    by (auto simp: int_sub_def int_add_def word_sless_alt sint_word_ariths
        signed_take_bit_int_eq_self split: if_splits)
  then show "((arr', n, i, j'), (arr, n, i, j))
      \<in> measure (\<lambda>(arr, n, i, j). nat (sint (n - i - 1) - sint j))"
    by simp
qed simp

text \<open>
  The outer loop \<^verbatim>\<open>for (int i = 0; i < n - 1; i++)\<close>, entered at \<open>i\<close>.
\<close>

function outer_loop :: "int32 list \<Rightarrow> int32 \<Rightarrow> int32 \<Rightarrow> int32 list option" where
  "outer_loop arr n i = do {
     m \<leftarrow> int_sub n 1;
     if i <s m
     then do {
       arr' \<leftarrow> inner_loop arr n i 0;
       i' \<leftarrow> int_add i 1;
       outer_loop arr' n i'
     }
     else Some arr
   }"
  by pat_completeness auto
termination
proof (relation "measure (\<lambda>(arr, n, i). nat (sint (n - 1) - sint i))")
  fix arr arr' :: "int32 list" and n i m i' :: int32
  assume "int_sub n 1 = Some m" "i <s m" "int_add i 1 = Some i'"
  then have "m = n - 1" "sint i < sint m" "sint i' = sint i + 1"
    by (auto simp: int_sub_def int_add_def word_sless_alt sint_word_ariths
        signed_take_bit_int_eq_self split: if_splits)
  then show "((arr', n, i'), (arr, n, i))
      \<in> measure (\<lambda>(arr, n, i). nat (sint (n - 1) - sint i))"
    by simp
qed simp

text \<open>
  \<^verbatim>\<open>void bubbleSort(std::vector<int>& arr)\<close>: the vector after the call, or \<open>None\<close>
  when the call has undefined behaviour. \<^verbatim>\<open>int n = arr.size()\<close> keeps the low 32 bits
  of the length.
\<close>

definition bubbleSort :: "int32 list \<Rightarrow> int32 list option" where
  "bubbleSort arr = (let n = word_of_nat (length arr) in outer_loop arr n 0)"

subsection \<open>The passes of the outer loop\<close>

text \<open>
  The outer loop again, recording each pass it performs: the bound \<open>n - i - 1\<close> of the
  inner loop of the pass, and the vector when the pass is over. The record ends where the
  loop ends or its behaviour is undefined.
\<close>

function outer_trace :: "int32 list \<Rightarrow> int32 \<Rightarrow> int32 \<Rightarrow> (int32 \<times> int32 list) list" where
  "outer_trace arr n i =
     (case int_sub n 1 of
        None \<Rightarrow> []
      | Some m \<Rightarrow>
          if i <s m
          then (case inner_loop arr n i 0 of
                  None \<Rightarrow> []
                | Some arr' \<Rightarrow>
                    (n - i - 1, arr') #
                    (case int_add i 1 of None \<Rightarrow> [] | Some i' \<Rightarrow> outer_trace arr' n i'))
          else [])"
  by pat_completeness auto
termination
proof (relation "measure (\<lambda>(arr, n, i). nat (sint (n - 1) - sint i))")
  fix arr arr' :: "int32 list" and n i m i' :: int32
  assume "int_sub n 1 = Some m" "i <s m" "int_add i 1 = Some i'"
  then have "m = n - 1" "sint i < sint m" "sint i' = sint i + 1"
    by (auto simp: int_sub_def int_add_def word_sless_alt sint_word_ariths
        signed_take_bit_int_eq_self split: if_splits)
  then show "((arr', n, i'), (arr, n, i))
      \<in> measure (\<lambda>(arr, n, i). nat (sint (n - 1) - sint i))"
    by simp
qed simp

definition bubbleSort_trace :: "int32 list \<Rightarrow> (int32 \<times> int32 list) list" where
  "bubbleSort_trace arr = (let n = word_of_nat (length arr) in outer_trace arr n 0)"

subsection \<open>The same loops on records with an integer key\<close>

text \<open>
  Equal integers cannot be told apart, so the order in which the sort leaves equal values
  is stated on records that carry a key: the loops of \<^verbatim>\<open>bubbleSort\<close>, comparing
  \<open>key (arr[j])\<close> with \<open>key (arr[j + 1])\<close>. With the identity as key they are the loops
  above.
\<close>

definition inner_body_by :: "('a \<Rightarrow> int32) \<Rightarrow> 'a list \<Rightarrow> int32 \<Rightarrow> 'a list option" where
  "inner_body_by key arr j = do {
     a \<leftarrow> subscript arr j;
     k \<leftarrow> int_add j 1;
     b \<leftarrow> subscript arr k;
     if key b <s key a then Some (swap arr j k) else Some arr
   }"

function inner_loop_by ::
  "('a \<Rightarrow> int32) \<Rightarrow> 'a list \<Rightarrow> int32 \<Rightarrow> int32 \<Rightarrow> int32 \<Rightarrow> 'a list option" where
  "inner_loop_by key arr n i j = do {
     d \<leftarrow> int_sub n i;
     bound \<leftarrow> int_sub d 1;
     if j <s bound
     then do {
       arr' \<leftarrow> inner_body_by key arr j;
       j' \<leftarrow> int_add j 1;
       inner_loop_by key arr' n i j'
     }
     else Some arr
   }"
  by pat_completeness auto
termination
proof (relation "measure (\<lambda>(key, arr, n, i, j). nat (sint (n - i - 1) - sint j))")
  fix key :: "'a \<Rightarrow> int32" and arr arr' :: "'a list" and n i j d bound j' :: int32
  assume "int_sub n i = Some d" "int_sub d 1 = Some bound" "j <s bound"
    and "int_add j 1 = Some j'"
  then have "bound = n - i - 1" "sint j < sint bound" "sint j' = sint j + 1"
    by (auto simp: int_sub_def int_add_def word_sless_alt sint_word_ariths
        signed_take_bit_int_eq_self split: if_splits)
  then show "((key, arr', n, i, j'), (key, arr, n, i, j))
      \<in> measure (\<lambda>(key, arr, n, i, j). nat (sint (n - i - 1) - sint j))"
    by simp
qed simp

function outer_loop_by ::
  "('a \<Rightarrow> int32) \<Rightarrow> 'a list \<Rightarrow> int32 \<Rightarrow> int32 \<Rightarrow> 'a list option" where
  "outer_loop_by key arr n i = do {
     m \<leftarrow> int_sub n 1;
     if i <s m
     then do {
       arr' \<leftarrow> inner_loop_by key arr n i 0;
       i' \<leftarrow> int_add i 1;
       outer_loop_by key arr' n i'
     }
     else Some arr
   }"
  by pat_completeness auto
termination
proof (relation "measure (\<lambda>(key, arr, n, i). nat (sint (n - 1) - sint i))")
  fix key :: "'a \<Rightarrow> int32" and arr arr' :: "'a list" and n i m i' :: int32
  assume "int_sub n 1 = Some m" "i <s m" "int_add i 1 = Some i'"
  then have "m = n - 1" "sint i < sint m" "sint i' = sint i + 1"
    by (auto simp: int_sub_def int_add_def word_sless_alt sint_word_ariths
        signed_take_bit_int_eq_self split: if_splits)
  then show "((key, arr', n, i'), (key, arr, n, i))
      \<in> measure (\<lambda>(key, arr, n, i). nat (sint (n - 1) - sint i))"
    by simp
qed simp

definition bubbleSort_by :: "('a \<Rightarrow> int32) \<Rightarrow> 'a list \<Rightarrow> 'a list option" where
  "bubbleSort_by key arr = (let n = word_of_nat (length arr) in outer_loop_by key arr n 0)"

subsection \<open>printArray\<close>

text \<open>
  \<^verbatim>\<open>std::cout << num\<close> for an \<^verbatim>\<open>int\<close>, with the formatting a stream starts with:
  the decimal digits of the value, after a minus sign when it is negative.
\<close>

definition digit_char :: "nat \<Rightarrow> char" where
  "digit_char d = ''0123456789'' ! d"

fun digits :: "nat \<Rightarrow> string" where
  "digits m = (if m < 10 then [digit_char m] else digits (m div 10) @ [digit_char (m mod 10)])"

definition show_int :: "int \<Rightarrow> string" where
  "show_int k = (if k < 0 then CHR ''-'' # digits (nat (- k)) else digits (nat k))"

text \<open>
  The standard output is the string written so far.
  \<^verbatim>\<open>for (int num : arr) { std::cout << num << " "; }\<close> appends to it, and
  \<^verbatim>\<open>std::cout << std::endl\<close> ends the line.
\<close>

fun print_loop :: "int32 list \<Rightarrow> string \<Rightarrow> string" where
  "print_loop [] out = out"
| "print_loop (num # rest) out = print_loop rest (out @ show_int (sint num) @ '' '')"

definition printArray :: "int32 list \<Rightarrow> string \<Rightarrow> string" where
  "printArray arr out = print_loop arr out @ [CHR 0x0A]"

text \<open>
  The rendering in the words of the specification: the elements in order, separated by a
  single space, followed by a line terminator.
\<close>

fun separated :: "string \<Rightarrow> string list \<Rightarrow> string" where
  "separated sep [] = []"
| "separated sep [x] = x"
| "separated sep (x # y # ys) = x @ sep @ separated sep (y # ys)"

definition printArray_spec :: "int32 list \<Rightarrow> string" where
  "printArray_spec arr = separated '' '' (map (\<lambda>num. show_int (sint num)) arr) @ [CHR 0x0A]"

subsection \<open>main\<close>

text \<open>The two labels, as the bytes of the source file (UTF-8), each ending in \<open>: \<close>.\<close>

definition label_before :: string where
  "label_before =
     [CHR 0xE6, CHR 0x8E, CHR 0x92, CHR 0xE5, CHR 0xBA, CHR 0x8F, CHR 0xE5, CHR 0x89,
      CHR 0x8D, CHR 0xE7, CHR 0x9A, CHR 0x84, CHR 0xE6, CHR 0x95, CHR 0xB0, CHR 0xE7,
      CHR 0xBB, CHR 0x84, CHR 0x3A, CHR 0x20]"

definition label_after :: string where
  "label_after =
     [CHR 0xE6, CHR 0x8E, CHR 0x92, CHR 0xE5, CHR 0xBA, CHR 0x8F, CHR 0xE5, CHR 0x90,
      CHR 0x8E, CHR 0xE7, CHR 0x9A, CHR 0x84, CHR 0xE6, CHR 0x95, CHR 0xB0, CHR 0xE7,
      CHR 0xBB, CHR 0x84, CHR 0x3A, CHR 0x20]"

text \<open>
  \<^verbatim>\<open>int main()\<close>: what the run writes to the standard output and its exit status,
  or \<open>None\<close> when the sort has undefined behaviour.
\<close>

definition literal_input :: "int32 list" where
  "literal_input = [64, 34, 25, 12, 22, 11, 90]"

definition main :: "(string \<times> int32) option" where
  "main =
     (let arr = literal_input;
          out = printArray arr label_before
      in case bubbleSort arr of
           None \<Rightarrow> None
         | Some arr' \<Rightarrow> Some (printArray arr' (out @ label_after), 0))"

subsection \<open>The loops by position\<close>

text \<open>
  What the loops do to the vector, with natural numbers for the positions and without the
  bounds checks. \<open>exchange\<close> is one run of the inner loop's body at position \<open>j\<close>, on
  the signed values of the keys; \<open>sweep\<close> is the inner loop from \<open>j\<close> up to the bound
  \<open>b\<close>; \<open>sweeps\<close> is the passes \<open>i, \<dots>, k - 1\<close> of an outer loop of \<open>p\<close> passes.
\<close>

definition exchange :: "('a \<Rightarrow> int) \<Rightarrow> nat \<Rightarrow> 'a list \<Rightarrow> 'a list" where
  "exchange val j xs =
     (if val (xs ! Suc j) < val (xs ! j) then xs[j := xs ! Suc j, Suc j := xs ! j] else xs)"

definition sweep :: "('a \<Rightarrow> int) \<Rightarrow> nat \<Rightarrow> nat \<Rightarrow> 'a list \<Rightarrow> 'a list" where
  "sweep val j b xs = fold (exchange val) [j..<b] xs"

definition sweeps :: "('a \<Rightarrow> int) \<Rightarrow> nat \<Rightarrow> nat \<Rightarrow> nat \<Rightarrow> 'a list \<Rightarrow> 'a list" where
  "sweeps val p i k xs = fold (\<lambda>i. sweep val 0 (p - i)) [i..<k] xs"

text \<open>
  The number of passes of the outer loop on a vector of \<open>len\<close> elements, when \<open>n - 1\<close>
  is defined: the signed value of \<open>n\<close>, less one, when that is positive.
\<close>

definition pass_count :: "nat \<Rightarrow> nat" where
  "pass_count len = nat (sint (word_of_nat len :: int32) - 1)"

subsection \<open>A vector longer than an int can count\<close>

text \<open>
  \<open>2 ^ 32 + 2\<close> elements: \<open>2 ^ 32\<close> zeros, then 1, then 0. A vector of this length
  fits the size type of a 64-bit target, and \<^verbatim>\<open>int n = arr.size()\<close> gives \<open>n = 2\<close>.
\<close>

definition wide_input :: "int32 list" where
  "wide_input = replicate 4294967296 0 @ [1, 0]"

text \<open>
  \<open>2 ^ 31\<close> zeros: \<^verbatim>\<open>int n = arr.size()\<close> gives the least \<^verbatim>\<open>int\<close>, and \<open>n - 1\<close>
  is outside the range of \<^verbatim>\<open>int\<close>.
\<close>

definition overflow_input :: "int32 list" where
  "overflow_input = replicate 2147483648 0"

declare inner_loop.simps [simp del] outer_loop.simps [simp del] outer_trace.simps [simp del]
declare inner_loop_by.simps [simp del] outer_loop_by.simps [simp del] digits.simps [simp del]

section \<open>Properties of the loops\<close>

subsection \<open>exchange\<close>

lemma length_exchange [simp]: "length (exchange val j xs) = length xs"
  by (simp add: exchange_def)

lemma mset_exchange: "Suc j < length xs \<Longrightarrow> mset (exchange val j xs) = mset xs"
  by (simp add: exchange_def mset_swap)

lemma exchange_nth_other:
  "q \<noteq> j \<Longrightarrow> q \<noteq> Suc j \<Longrightarrow> exchange val j xs ! q = xs ! q"
  by (simp add: exchange_def)

lemma exchange_le:
  "Suc j < length xs \<Longrightarrow> val (exchange val j xs ! j) \<le> val (exchange val j xs ! Suc j)"
  by (simp add: exchange_def)

lemma exchange_top:
  "Suc j < length xs \<Longrightarrow> val (xs ! j) \<le> val (exchange val j xs ! Suc j)"
  by (simp add: exchange_def)

lemma exchange_pred:
  assumes "Suc j < length xs" "Suc j \<le> b" "\<forall>q\<le>b. Q (xs ! q)" "q \<le> b"
  shows "Q (exchange val j xs ! q)"
  using assms by (auto simp: exchange_def nth_list_update)

lemma exchange_id:
  "\<not> val (xs ! Suc j) < val (xs ! j) \<Longrightarrow> exchange val j xs = xs"
  by (simp add: exchange_def)




subsection \<open>sweep\<close>

lemma sweep_empty [simp]: "b \<le> j \<Longrightarrow> sweep val j b xs = xs"
  by (simp add: sweep_def)

lemma sweep_step: "j < b \<Longrightarrow> sweep val j b xs = sweep val (Suc j) b (exchange val j xs)"
  by (simp add: sweep_def upt_conv_Cons)

lemma sweep_Suc: "j \<le> b \<Longrightarrow> sweep val j (Suc b) xs = exchange val b (sweep val j b xs)"
  by (simp add: sweep_def)

lemma length_sweep [simp]: "length (sweep val j b xs) = length xs"
  by (induction b) (simp_all add: sweep_Suc not_less_eq_eq sweep_def)

lemma mset_sweep: "b < length xs \<Longrightarrow> mset (sweep val 0 b xs) = mset xs"
  by (induction b) (simp_all add: sweep_Suc mset_exchange)


lemma sweep_nth_above: "b < q \<Longrightarrow> sweep val 0 b xs ! q = xs ! q"
  by (induction b) (simp_all add: sweep_Suc exchange_nth_other)

lemma sweep_top:
  "b < length xs \<Longrightarrow> q \<le> b \<Longrightarrow> val (sweep val 0 b xs ! q) \<le> val (sweep val 0 b xs ! b)"
proof (induction b arbitrary: q)
  case 0
  then show ?case by simp
next
  case (Suc b)
  let ?s = "sweep val 0 b xs"
  have len: "Suc b < length ?s" using Suc.prems by simp
  have r: "sweep val 0 (Suc b) xs = exchange val b ?s" by (simp add: sweep_Suc)
  consider "q < b" | "q = b" | "q = Suc b" using Suc.prems by linarith
  then show ?case
  proof cases
    case 1
    then have "val (exchange val b ?s ! q) = val (?s ! q)"
      by (simp add: exchange_nth_other)
    also have "\<dots> \<le> val (?s ! b)" using Suc.IH [of q] Suc.prems 1 by simp
    also have "\<dots> \<le> val (exchange val b ?s ! Suc b)" by (rule exchange_top [OF len])
    finally show ?thesis by (simp add: r)
  next
    case 2
    then show ?thesis using exchange_le [OF len, of val] by (simp add: r)
  next
    case 3
    then show ?thesis by simp
  qed
qed

lemma sweep_pred:
  "b < length xs \<Longrightarrow> \<forall>q\<le>b. Q (xs ! q) \<Longrightarrow> q \<le> b \<Longrightarrow> Q (sweep val 0 b xs ! q)"
proof (induction b arbitrary: q)
  case 0
  then show ?case by simp
next
  case (Suc b)
  let ?s = "sweep val 0 b xs"
  have len: "Suc b < length ?s" using Suc.prems by simp
  have "\<forall>q\<le>Suc b. Q (?s ! q)"
  proof (intro allI impI)
    fix q assume q: "q \<le> Suc b"
    show "Q (?s ! q)"
    proof (cases "q \<le> b")
      case True
      then show ?thesis using Suc.IH [of q] Suc.prems by simp
    next
      case False
      then have "q = Suc b" using q by simp
      then show ?thesis using Suc.prems by (simp add: sweep_nth_above)
    qed
  qed
  then have "Q (exchange val b ?s ! q)"
    using exchange_pred [OF len, of "Suc b" Q q val] Suc.prems by simp
  then show ?case by (simp add: sweep_Suc)
qed

lemma fold_id: "\<forall>x\<in>set xs. f x s = s \<Longrightarrow> fold f xs s = s"
  by (induction xs) simp_all

lemma sweep_id:
  "\<forall>j<b. \<not> val (xs ! Suc j) < val (xs ! j) \<Longrightarrow> sweep val 0 b xs = xs"
  unfolding sweep_def by (rule fold_id) (simp add: exchange_id)


subsection \<open>sweeps\<close>

lemma sweeps_empty [simp]: "k \<le> i \<Longrightarrow> sweeps val p i k xs = xs"
  by (simp add: sweeps_def)

lemma sweeps_step:
  "i < k \<Longrightarrow> sweeps val p i k xs = sweeps val p (Suc i) k (sweep val 0 (p - i) xs)"
  by (simp add: sweeps_def upt_conv_Cons)

lemma sweeps_Suc:
  "i \<le> k \<Longrightarrow> sweeps val p i (Suc k) xs = sweep val 0 (p - k) (sweeps val p i k xs)"
  by (simp add: sweeps_def)

lemma sweeps_split:
  "i \<le> k \<Longrightarrow> k \<le> l \<Longrightarrow> sweeps val p i l xs = sweeps val p k l (sweeps val p i k xs)"
proof -
  assume a: "i \<le> k" "k \<le> l"
  then have "[i..<l] = [i..<k] @ [k..<l]"
    by (metis le_Suc_ex upt_add_eq_append)
  then show ?thesis by (simp add: sweeps_def)
qed

lemma length_sweeps [simp]: "length (sweeps val p i k xs) = length xs"
  by (induction k) (simp_all add: sweeps_Suc not_less_eq_eq sweeps_def)

lemma mset_sweeps: "p < length xs \<Longrightarrow> mset (sweeps val p i k xs) = mset xs"
proof (induction k)
  case 0
  then show ?case by simp
next
  case (Suc k)
  show ?case
  proof (cases "i \<le> k")
    case True
    then show ?thesis using Suc by (simp add: sweeps_Suc mset_sweep)
  next
    case False
    then show ?thesis by simp
  qed
qed


lemma sweeps_nth_above: "p - i < q \<Longrightarrow> sweeps val p i k xs ! q = xs ! q"
proof (induction k)
  case 0
  then show ?case by simp
next
  case (Suc k)
  show ?case
  proof (cases "i \<le> k")
    case True
    then have "p - k < q" using Suc.prems by linarith
    then show ?thesis using True Suc by (simp add: sweeps_Suc sweep_nth_above)
  next
    case False
    then show ?thesis by simp
  qed
qed

lemma sweeps_id:
  assumes "\<forall>j. Suc j < length xs \<longrightarrow> \<not> val (xs ! Suc j) < val (xs ! j)" "p < length xs"
  shows "sweeps val p i k xs = xs"
  unfolding sweeps_def
proof (rule fold_id, intro ballI)
  fix a assume "a \<in> set [i..<k]"
  show "sweep val 0 (p - a) xs = xs"
    using assms by (intro sweep_id) auto
qed




text \<open>After \<open>k\<close> passes the last \<open>k\<close> of the positions \<open>0, \<dots>, p\<close> hold values that
  are in order and are no smaller than any value before them.\<close>

lemma sweeps_done:
  assumes "p < length xs"
  shows "k \<le> p \<Longrightarrow> u < v \<Longrightarrow> p - k < v \<Longrightarrow> v \<le> p \<Longrightarrow>
         val (sweeps val p 0 k xs ! u) \<le> val (sweeps val p 0 k xs ! v)"
proof (induction k arbitrary: u v)
  case 0
  then show ?case by simp
next
  case (Suc k)
  let ?t = "sweeps val p 0 k xs"
  let ?m = "p - k"
  have r: "sweeps val p 0 (Suc k) xs = sweep val 0 ?m ?t" by (simp add: sweeps_Suc)
  have m: "?m < length ?t" using assms by simp
  have IH: "val (?t ! a) \<le> val (?t ! b)" if "a < b" "?m < b" "b \<le> p" for a b
    using Suc.IH [of a b] Suc.prems(1) that by simp
  have mv: "?m \<le> v" using Suc.prems by linarith
  show ?case
  proof (cases "v = ?m")
    case True
    then show ?thesis using sweep_top [OF m, of u val] Suc.prems by (simp add: r)
  next
    case False
    then have v: "?m < v" using mv by simp
    then have rv: "sweep val 0 ?m ?t ! v = ?t ! v" by (simp add: sweep_nth_above)
    show ?thesis
    proof (cases "u \<le> ?m")
      case True
      have "\<forall>q\<le>?m. val (?t ! q) \<le> val (?t ! v)"
        using IH v Suc.prems by auto
      then have "val (sweep val 0 ?m ?t ! u) \<le> val (?t ! v)"
        using sweep_pred [OF m, of "\<lambda>x. val x \<le> val (?t ! v)" u val] True by simp
      then show ?thesis by (simp add: r rv)
    next
      case False
      then have "sweep val 0 ?m ?t ! u = ?t ! u" by (simp add: sweep_nth_above)
      then show ?thesis using IH [of u v] v Suc.prems by (simp add: r rv)
    qed
  qed
qed

lemma sweeps_sorted:
  "p < length xs \<Longrightarrow> u < v \<Longrightarrow> v \<le> p \<Longrightarrow>
   val (sweeps val p 0 p xs ! u) \<le> val (sweeps val p 0 p xs ! v)"
  using sweeps_done [of p xs p u v val] by simp

subsection \<open>Signed 32-bit arithmetic\<close>


lemma int_add_Some: "int_add a b = Some r \<Longrightarrow> r = a + b \<and> sint r = sint a + sint b"
  by (auto simp: int_add_def sint_word_ariths signed_take_bit_int_eq_self split: if_splits)

lemma int_sub_Some: "int_sub a b = Some r \<Longrightarrow> r = a - b \<and> sint r = sint a - sint b"
  by (auto simp: int_sub_def sint_word_ariths signed_take_bit_int_eq_self split: if_splits)

lemma int_add_1: "sint j < sint b \<Longrightarrow> int_add j 1 = Some (j + 1)" for j b :: int32
  using sint_ge [of j] sint_lt [of b] by (simp add: int_add_def)

lemma sint_succ: "sint j < sint b \<Longrightarrow> sint (j + 1) = sint j + 1" for j b :: int32
  using int_add_Some [OF int_add_1 [of j b]] by simp


lemma int_sub_1: "sint n \<noteq> - 2147483648 \<Longrightarrow> int_sub n 1 = Some (n - 1)" for n :: int32
  using sint_ge [of n] sint_lt [of n] by (simp add: int_sub_def)

lemma sint_pred: "sint n \<noteq> - 2147483648 \<Longrightarrow> sint (n - 1) = sint n - 1" for n :: int32
  using int_sub_Some [OF int_sub_1 [of n]] by simp

lemma int_sub_1_None: "sint n = - 2147483648 \<Longrightarrow> int_sub n 1 = None" for n :: int32
  by (simp add: int_sub_def)

lemma int_sub_counter:
  "0 \<le> sint i \<Longrightarrow> sint i < sint n \<Longrightarrow> int_sub n i = Some (n - i)" for i n :: int32
  using sint_ge [of n] sint_lt [of n] by (simp add: int_sub_def)

lemma sint_size:
  "sint (word_of_nat len :: int32) = (int len + 2147483648) mod 4294967296 - 2147483648"
proof -
  have "(word_of_nat len :: int32) = word_of_int (int len)"
    by simp
  then show ?thesis
    by (simp only: int_word_sint) simp
qed

lemma sint_size_le: "sint (word_of_nat len :: int32) \<le> int len"
proof -
  have "(int len + 2147483648) mod 4294967296 \<le> int len + 2147483648"
    by (intro zmod_le_nonneg_dividend) simp
  then show ?thesis by (simp add: sint_size)
qed

lemma sint_size_small: "len < 2147483648 \<Longrightarrow> sint (word_of_nat len :: int32) = int len"
  by (simp add: sint_size)

lemma mod_shift:
  "((a::int) + 2147483648) mod 4294967296 = 0 \<longleftrightarrow> a mod 4294967296 = 2147483648"
proof -
  define y where "y = a mod 4294967296"
  have y: "0 \<le> y" "y < 4294967296" by (simp_all add: y_def)
  have "(a + 2147483648) mod 4294967296 = (y + 2147483648) mod 4294967296"
    unfolding y_def by (simp add: mod_add_left_eq)
  also have "\<dots> = (if y < 2147483648 then y + 2147483648 else y - 2147483648)"
  proof (cases "y < 2147483648")
    case True
    then show ?thesis using y by (simp add: mod_pos_pos_trivial)
  next
    case False
    have "(y + 2147483648) mod 4294967296 = (y - 2147483648 + 4294967296) mod 4294967296"
      by (rule arg_cong [where f = "\<lambda>z. z mod 4294967296"]) simp
    also have "\<dots> = (y - 2147483648) mod 4294967296"
      by (rule mod_add_self2)
    also have "\<dots> = y - 2147483648"
      using False y by (simp add: mod_pos_pos_trivial)
    finally show ?thesis using False by simp
  qed
  finally have "(a + 2147483648) mod 4294967296
      = (if y < 2147483648 then y + 2147483648 else y - 2147483648)" .
  then show ?thesis using y unfolding y_def [symmetric] by (auto split: if_splits)
qed

lemma nat_int_mod: "int len mod 4294967296 = 2147483648 \<longleftrightarrow> len mod 4294967296 = 2147483648"
proof -
  define x where "x = len mod 4294967296"
  have e: "int len mod 4294967296 = int x"
    by (simp add: x_def zmod_int)
  show ?thesis unfolding e x_def [symmetric] by linarith
qed

lemma sint_size_least:
  "sint (word_of_nat len :: int32) = - 2147483648 \<longleftrightarrow> len mod 4294967296 = 2147483648"
proof -
  have "sint (word_of_nat len :: int32) = - 2147483648
      \<longleftrightarrow> (int len + 2147483648) mod 4294967296 = 0"
    by (simp add: sint_size)
  then show ?thesis by (simp only: mod_shift nat_int_mod)
qed

lemma pass_count_less: "0 < len \<Longrightarrow> pass_count len < len"
  using sint_size_le [of len] by (simp add: pass_count_def)

lemma pass_count_small: "len < 2147483648 \<Longrightarrow> pass_count len = len - 1"
  by (simp add: pass_count_def sint_size_small)

lemma pass_count_0 [simp]: "pass_count 0 = 0"
  by (simp add: pass_count_def)


subsection \<open>The loops of the program are the loops by position\<close>

lemma inner_body_by_exchange:
  assumes "0 \<le> sint j" "sint j < sint (b::int32)" "sint b < int (length arr)"
  shows "inner_body_by key arr j = Some (exchange (\<lambda>x. sint (key x)) (nat (sint j)) arr)"
proof -
  have a: "int_add j 1 = Some (j + 1)" using assms(2) by (rule int_add_1)
  have s: "sint (j + 1) = sint j + 1" using assms(2) by (rule sint_succ)
  have n: "nat (sint j + 1) = Suc (nat (sint j))" using assms(1) by simp
  have 1: "subscript arr j = Some (arr ! nat (sint j))"
    using assms by (simp add: subscript_def word_sle_eq)
  have 2: "subscript arr (j + 1) = Some (arr ! Suc (nat (sint j)))"
    using assms by (simp add: subscript_def word_sle_eq s n)
  show ?thesis
    by (simp add: inner_body_by_def a 1 2 exchange_def swap_def word_sless_alt s n)
qed

lemma inner_loop_by_sweep:
  "0 \<le> sint j \<Longrightarrow> int_sub n i = Some d \<Longrightarrow> int_sub d 1 = Some bound \<Longrightarrow>
   sint bound < int (length arr) \<Longrightarrow>
   inner_loop_by key arr n i j
     = Some (sweep (\<lambda>x. sint (key x)) (nat (sint j)) (nat (sint bound)) arr)"
proof (induction key arr n i j rule: inner_loop_by.induct)
  case (1 key arr n i j)
  let ?val = "\<lambda>x. sint (key x)"
  note d = \<open>int_sub n i = Some d\<close> and bd = \<open>int_sub d 1 = Some bound\<close>
  show ?case
  proof (cases "j <s bound")
    case True
    then have lt: "sint j < sint bound" by (simp add: word_sless_alt)
    have b: "inner_body_by key arr j = Some (exchange ?val (nat (sint j)) arr)"
      using "1.prems" lt by (intro inner_body_by_exchange)
    have a: "int_add j 1 = Some (j + 1)" using lt by (rule int_add_1)
    have s: "sint (j + 1) = sint j + 1" using lt by (rule sint_succ)
    have "inner_loop_by key (exchange ?val (nat (sint j)) arr) n i (j + 1)
        = Some (sweep ?val (nat (sint (j + 1))) (nat (sint bound))
                 (exchange ?val (nat (sint j)) arr))"
      using "1.prems" s by (intro "1.IH" [OF d bd True b a]) simp_all
    moreover have "nat (sint (j + 1)) = Suc (nat (sint j))"
      using "1.prems" s by simp
    moreover have "nat (sint j) < nat (sint bound)"
      using "1.prems" lt by simp
    ultimately show ?thesis
      using True by (subst inner_loop_by.simps) (simp add: d bd b a sweep_step)
  next
    case False
    then have "nat (sint bound) \<le> nat (sint j)"
      by (simp add: word_sless_alt)
    then show ?thesis
      using False by (subst inner_loop_by.simps) (simp add: d bd)
  qed
qed

lemma outer_loop_by_sweeps:
  "0 \<le> sint i \<Longrightarrow> sint n \<noteq> - 2147483648 \<Longrightarrow> sint n - 1 < int (length arr) \<Longrightarrow>
   outer_loop_by key arr n i
     = Some (sweeps (\<lambda>x. sint (key x)) (nat (sint n - 1)) (nat (sint i))
               (nat (sint n - 1)) arr)"
proof (induction key arr n i rule: outer_loop_by.induct)
  case (1 key arr n i)
  let ?val = "\<lambda>x. sint (key x)"
  let ?p = "nat (sint n - 1)"
  have m: "int_sub n 1 = Some (n - 1)" using "1.prems"(2) by (rule int_sub_1)
  have sm: "sint (n - 1) = sint n - 1" using "1.prems"(2) by (rule sint_pred)
  show ?case
  proof (cases "i <s n - 1")
    case True
    then have lt: "sint i < sint n - 1" by (simp add: word_sless_alt sm)
    have d: "int_sub n i = Some (n - i)"
      using "1.prems"(1) lt by (intro int_sub_counter) simp_all
    have sd: "sint (n - i) = sint n - sint i"
      using int_sub_Some [OF d] by simp
    have bd: "int_sub (n - i) 1 = Some (n - i - 1)"
      using lt sd by (intro int_sub_1) simp
    have sb: "sint (n - i - 1) = sint n - sint i - 1"
      using int_sub_Some [OF bd] sd by simp
    then have bn: "nat (sint (n - i - 1)) = ?p - nat (sint i)"
      using "1.prems"(1) by simp
    have "inner_loop_by key arr n i 0
        = Some (sweep ?val (nat (sint (0::int32))) (nat (sint (n - i - 1))) arr)"
      using "1.prems" sb d bd by (intro inner_loop_by_sweep) simp_all
    then have b: "inner_loop_by key arr n i 0 = Some (sweep ?val 0 (?p - nat (sint i)) arr)"
      by (simp add: bn)
    have lt': "sint i < sint (n - 1)" using lt sm by simp
    have a: "int_add i 1 = Some (i + 1)" using lt' by (rule int_add_1)
    have s: "sint (i + 1) = sint i + 1" using lt' by (rule sint_succ)
    have "outer_loop_by key (sweep ?val 0 (?p - nat (sint i)) arr) n (i + 1)
        = Some (sweeps ?val ?p (nat (sint (i + 1))) ?p (sweep ?val 0 (?p - nat (sint i)) arr))"
      using "1.prems" s by (intro "1.IH" [OF m True b a]) simp_all
    moreover have "nat (sint (i + 1)) = Suc (nat (sint i))"
      using "1.prems" s by simp
    moreover have "nat (sint i) < ?p"
      using "1.prems" lt by simp
    ultimately show ?thesis
      using True by (subst outer_loop_by.simps) (simp add: m b a sweeps_step)
  next
    case False
    then have "?p \<le> nat (sint i)"
      by (simp add: word_sless_alt sm)
    then show ?thesis
      using False by (subst outer_loop_by.simps) (simp add: m)
  qed
qed

lemma bubbleSort_by_sweeps:
  assumes "length arr mod 4294967296 \<noteq> 2147483648"
  shows "bubbleSort_by key arr
     = Some (sweeps (\<lambda>x. sint (key x)) (pass_count (length arr)) 0
               (pass_count (length arr)) arr)"
proof -
  have n: "sint (word_of_nat (length arr) :: int32) \<noteq> - 2147483648"
    using assms by (simp add: sint_size_least)
  have "sint (word_of_nat (length arr) :: int32) - 1 < int (length arr)"
    using sint_size_le [of "length arr"] by simp
  then have "outer_loop_by key arr (word_of_nat (length arr)) 0
      = Some (sweeps (\<lambda>x. sint (key x)) (pass_count (length arr)) (nat (sint (0::int32)))
               (pass_count (length arr)) arr)"
    unfolding pass_count_def using n by (intro outer_loop_by_sweeps) simp_all
  then show ?thesis by (simp add: bubbleSort_by_def)
qed

lemma bubbleSort_by_overflow:
  assumes "length arr mod 4294967296 = 2147483648"
  shows "bubbleSort_by key arr = None"
proof -
  have "sint (word_of_nat (length arr) :: int32) = - 2147483648"
    using assms by (simp add: sint_size_least)
  then have "int_sub (word_of_nat (length arr) :: int32) 1 = None"
    by (rule int_sub_1_None)
  then show ?thesis
    by (simp add: bubbleSort_by_def outer_loop_by.simps)
qed




lemma inner_body_by_id: "inner_body arr j = inner_body_by (\<lambda>x. x) arr j"
  by (simp add: inner_body_def inner_body_by_def)

lemma inner_loop_by_id: "inner_loop arr n i j = inner_loop_by (\<lambda>x. x) arr n i j"
proof (induction arr n i j rule: inner_loop.induct)
  case (1 arr n i j)
  show ?case
    by (subst inner_loop.simps, subst inner_loop_by.simps)
      (auto simp: inner_body_by_id "1.IH" split: Option.bind_split)
qed

lemma outer_loop_by_id: "outer_loop arr n i = outer_loop_by (\<lambda>x. x) arr n i"
proof (induction arr n i rule: outer_loop.induct)
  case (1 arr n i)
  show ?case
    by (subst outer_loop.simps, subst outer_loop_by.simps)
      (auto simp: inner_loop_by_id "1.IH" split: Option.bind_split)
qed

lemma bubbleSort_by_id: "bubbleSort arr = bubbleSort_by (\<lambda>x. x) arr"
  by (simp add: bubbleSort_def bubbleSort_by_def outer_loop_by_id)

lemma bubbleSort_sweeps:
  "length arr mod 4294967296 \<noteq> 2147483648 \<Longrightarrow>
   bubbleSort arr = Some (sweeps sint (pass_count (length arr)) 0 (pass_count (length arr)) arr)"
  by (simp add: bubbleSort_by_id bubbleSort_by_sweeps)

lemma bubbleSort_overflow:
  "length arr mod 4294967296 = 2147483648 \<Longrightarrow> bubbleSort arr = None"
  by (simp add: bubbleSort_by_id bubbleSort_by_overflow)

lemma inner_loop_sweep:
  "0 \<le> sint j \<Longrightarrow> int_sub n i = Some d \<Longrightarrow> int_sub d 1 = Some bound \<Longrightarrow>
   sint bound < int (length arr) \<Longrightarrow>
   inner_loop arr n i j = Some (sweep sint (nat (sint j)) (nat (sint bound)) arr)"
  by (simp add: inner_loop_by_id inner_loop_by_sweep)

lemma small_length: "len < 2147483648 \<Longrightarrow> len mod 4294967296 \<noteq> 2147483648" for len :: nat
  by simp



subsection \<open>The recorded passes\<close>

lemma outer_trace_sweeps:
  "0 \<le> sint i \<Longrightarrow> sint n \<noteq> - 2147483648 \<Longrightarrow> sint n - 1 < int (length arr) \<Longrightarrow>
   map (\<lambda>(b, s). (sint b, s)) (outer_trace arr n i)
     = map (\<lambda>k. (int (nat (sint n - 1)) - int k,
                  sweeps sint (nat (sint n - 1)) (nat (sint i)) (Suc k) arr))
         [nat (sint i)..<nat (sint n - 1)]"
proof (induction arr n i rule: outer_trace.induct)
  case (1 arr n i)
  let ?p = "nat (sint n - 1)"
  let ?i = "nat (sint i)"
  have m: "int_sub n 1 = Some (n - 1)" using "1.prems"(2) by (rule int_sub_1)
  have sm: "sint (n - 1) = sint n - 1" using "1.prems"(2) by (rule sint_pred)
  show ?case
  proof (cases "i <s n - 1")
    case True
    then have lt: "sint i < sint n - 1" by (simp add: word_sless_alt sm)
    have d: "int_sub n i = Some (n - i)"
      using "1.prems"(1) lt by (intro int_sub_counter) simp_all
    have sd: "sint (n - i) = sint n - sint i"
      using int_sub_Some [OF d] by simp
    have bd: "int_sub (n - i) 1 = Some (n - i - 1)"
      using lt sd by (intro int_sub_1) simp
    have sb: "sint (n - i - 1) = sint n - sint i - 1"
      using int_sub_Some [OF bd] sd by simp
    then have bn: "nat (sint (n - i - 1)) = ?p - ?i"
      using "1.prems"(1) by simp
    have "inner_loop arr n i 0
        = Some (sweep sint (nat (sint (0::int32))) (nat (sint (n - i - 1))) arr)"
      using "1.prems" sb d bd by (intro inner_loop_sweep) simp_all
    then have b: "inner_loop arr n i 0 = Some (sweep sint 0 (?p - ?i) arr)"
      by (simp add: bn)
    have lt': "sint i < sint (n - 1)" using lt sm by simp
    have a: "int_add i 1 = Some (i + 1)" using lt' by (rule int_add_1)
    have s: "sint (i + 1) = sint i + 1" using lt' by (rule sint_succ)
    have si: "nat (sint (i + 1)) = Suc ?i"
      using "1.prems" s by simp
    have ip: "?i < ?p"
      using "1.prems" lt by simp
    have "map (\<lambda>(b, s). (sint b, s)) (outer_trace (sweep sint 0 (?p - ?i) arr) n (i + 1))
        = map (\<lambda>k. (int ?p - int k,
                     sweeps sint ?p (nat (sint (i + 1))) (Suc k) (sweep sint 0 (?p - ?i) arr)))
            [nat (sint (i + 1))..<?p]"
      using "1.prems" s by (intro "1.IH" [OF m True b a]) simp_all
    also have "\<dots> = map (\<lambda>k. (int ?p - int k, sweeps sint ?p ?i (Suc k) arr)) [Suc ?i..<?p]"
      by (simp add: si sweeps_step [of ?i])
    finally have rest:
      "map (\<lambda>(b, s). (sint b, s)) (outer_trace (sweep sint 0 (?p - ?i) arr) n (i + 1))
        = map (\<lambda>k. (int ?p - int k, sweeps sint ?p ?i (Suc k) arr)) [Suc ?i..<?p]" .
    have hd: "sweeps sint ?p ?i (Suc ?i) arr = sweep sint 0 (?p - ?i) arr"
      by (simp add: sweeps_Suc)
    have "sint (n - i - 1) = int ?p - int ?i"
      using sb "1.prems" lt by simp
    then show ?thesis
      using True ip rest hd
      by (subst outer_trace.simps) (simp add: m b a upt_conv_Cons)
  next
    case False
    then have "?p \<le> ?i"
      by (simp add: word_sless_alt sm)
    then show ?thesis
      using False by (subst outer_trace.simps) (simp add: m)
  qed
qed

lemma bubbleSort_trace_sweeps:
  assumes "length arr mod 4294967296 \<noteq> 2147483648"
  shows "map (\<lambda>(b, s). (sint b, s)) (bubbleSort_trace arr)
     = map (\<lambda>k. (int (pass_count (length arr)) - int k,
                  sweeps sint (pass_count (length arr)) 0 (Suc k) arr))
         [0..<pass_count (length arr)]"
proof -
  have n: "sint (word_of_nat (length arr) :: int32) \<noteq> - 2147483648"
    using assms by (simp add: sint_size_least)
  have "sint (word_of_nat (length arr) :: int32) - 1 < int (length arr)"
    using sint_size_le [of "length arr"] by simp
  then have "map (\<lambda>(b, s). (sint b, s)) (outer_trace arr (word_of_nat (length arr)) 0)
     = map (\<lambda>k. (int (pass_count (length arr)) - int k,
                  sweeps sint (pass_count (length arr)) (nat (sint (0::int32))) (Suc k) arr))
         [nat (sint (0::int32))..<pass_count (length arr)]"
    unfolding pass_count_def using n by (intro outer_trace_sweeps) simp_all
  then show ?thesis by (simp add: bubbleSort_trace_def)
qed

lemma length_bubbleSort_trace:
  "length arr mod 4294967296 \<noteq> 2147483648 \<Longrightarrow>
   length (bubbleSort_trace arr) = pass_count (length arr)"
  using arg_cong [OF bubbleSort_trace_sweeps [of arr], of length] by simp

lemma bubbleSort_trace_nth:
  assumes "length arr mod 4294967296 \<noteq> 2147483648" "k < pass_count (length arr)"
  shows "sint (fst (bubbleSort_trace arr ! k)) = int (pass_count (length arr)) - int k"
    and "snd (bubbleSort_trace arr ! k) = sweeps sint (pass_count (length arr)) 0 (Suc k) arr"
proof -
  let ?l = "map (\<lambda>(b, s). (sint b, s)) (bubbleSort_trace arr)"
  have k: "k < length (bubbleSort_trace arr)"
    using assms by (simp add: length_bubbleSort_trace)
  have "?l ! k = (int (pass_count (length arr)) - int k,
                  sweeps sint (pass_count (length arr)) 0 (Suc k) arr)"
    using assms(2) by (simp only: bubbleSort_trace_sweeps [OF assms(1)]) simp
  moreover have "?l ! k = (sint (fst (bubbleSort_trace arr ! k)), snd (bubbleSort_trace arr ! k))"
    using k by (simp add: case_prod_unfold)
  ultimately show "sint (fst (bubbleSort_trace arr ! k)) = int (pass_count (length arr)) - int k"
    and "snd (bubbleSort_trace arr ! k) = sweeps sint (pass_count (length arr)) 0 (Suc k) arr"
    by simp_all
qed

lemma map_snd_bubbleSort_trace:
  assumes "length arr mod 4294967296 \<noteq> 2147483648"
  shows "map snd (bubbleSort_trace arr)
     = map (\<lambda>k. sweeps sint (pass_count (length arr)) 0 (Suc k) arr)
         [0..<pass_count (length arr)]"
proof -
  have "map snd (bubbleSort_trace arr)
      = map snd (map (\<lambda>(b, s). (sint b, s)) (bubbleSort_trace arr))"
    by (simp add: case_prod_unfold comp_def)
  then show ?thesis
    by (simp only: bubbleSort_trace_sweeps [OF assms]) (simp add: comp_def)
qed

lemma last_bubbleSort_trace:
  assumes "length arr mod 4294967296 \<noteq> 2147483648"
  shows "last (arr # map snd (bubbleSort_trace arr))
     = sweeps sint (pass_count (length arr)) 0 (pass_count (length arr)) arr"
proof (cases "pass_count (length arr)")
  case 0
  then show ?thesis by (simp add: map_snd_bubbleSort_trace [OF assms])
next
  case (Suc m)
  then show ?thesis by (simp add: map_snd_bubbleSort_trace [OF assms])
qed

subsection \<open>The output\<close>

lemma print_loop_concat:
  "print_loop arr out = out @ concat (map (\<lambda>num. show_int (sint num) @ '' '') arr)"
  by (induction arr arbitrary: out) simp_all

lemma concat_separated:
  "xs \<noteq> [] \<Longrightarrow> concat (map (\<lambda>x. x @ sep) xs) = separated sep xs @ sep"
  by (induction sep xs rule: separated.induct) simp_all

lemma main_run:
  "main = Some (label_before @ ''64 34 25 12 22 11 90 '' @ [CHR 0x0A]
                @ label_after @ ''11 12 22 25 34 64 90 '' @ [CHR 0x0A], 0)"
  by (simp add: main_def literal_input_def bubbleSort_def inner_loop.simps outer_loop.simps
      inner_body_def subscript_def swap_def int_add_def int_sub_def word_sless_alt word_sle_eq
      printArray_def show_int_def digits.simps digit_char_def)

section \<open>The claims of the specification\<close>

subsection \<open>Facts shared by the claims\<close>

lemma length_wide_input: "length wide_input = 4294967298"
  by (simp add: wide_input_def)

lemma wide_input_nth:
  "wide_input ! 0 = 0" "wide_input ! Suc 0 = 0"
  "wide_input ! 4294967296 = 1" "wide_input ! 4294967297 = 0"
  by (simp_all add: wide_input_def nth_append)

lemma bubbleSort_wide_input: "bubbleSort wide_input = Some wide_input"
  by (simp add: bubbleSort_def length_wide_input outer_loop.simps inner_loop.simps
      inner_body_def subscript_def int_add_def int_sub_def wide_input_nth
      word_sless_alt word_sle_eq)

lemma length_overflow_input: "length overflow_input = 2147483648"
  by (simp add: overflow_input_def)

lemma bubbleSort_overflow_input: "bubbleSort overflow_input = None"
  by (simp add: bubbleSort_def length_overflow_input outer_loop.simps int_sub_def)

subsection \<open>C1: sortedness\<close>

text \<open>
  C1, as amended: for every sequence of at most \<open>2 ^ 31 - 1\<close> integers (a length that an
  \<^verbatim>\<open>int\<close> holds), \<^verbatim>\<open>bubbleSort\<close> returns, and afterwards the sequence is in
  non-decreasing order: for every pair of valid indices \<open>i < j\<close>, the element at \<open>i\<close> is
  at most the element at \<open>j\<close>.
\<close>

theorem bubbleSort_sorted:
  assumes "length arr < 2147483648"
  shows "\<exists>arr'. bubbleSort arr = Some arr' \<and>
           (\<forall>i j. i < j \<and> j < length arr' \<longrightarrow> arr' ! i \<le>s arr' ! j)"
proof -
  let ?p = "pass_count (length arr)"
  let ?r = "sweeps sint ?p 0 ?p arr"
  have "?r ! i \<le>s ?r ! j" if "i < j" "j < length ?r" for i j
  proof -
    have len: "0 < length arr" using that by (cases arr) simp_all
    then have p: "?p < length arr" by (rule pass_count_less)
    have "j \<le> ?p" using that assms by (simp add: pass_count_small)
    then show ?thesis
      using sweeps_sorted [OF p that(1), of sint] by (simp add: word_sle_eq)
  qed
  then show ?thesis using small_length [OF assms] by (simp add: bubbleSort_sweeps)
qed

theorem bubbleSort_sorted_witness:
  "length [3, 1, 2 :: int32] < 2147483648 \<and>
   (\<exists>arr'. bubbleSort [3, 1, 2] = Some arr' \<and>
      (\<forall>i j. i < j \<and> j < length arr' \<longrightarrow> arr' ! i \<le>s arr' ! j))"
  using bubbleSort_sorted [of "[3, 1, 2]"] by simp

text \<open>
  C1 as it is written fails on \<open>wide_input\<close>: \<open>n\<close> is 2, the single pass compares the
  first two zeros only, and the vector comes back as it was, with 1 before 0 at its end.
\<close>

theorem bubbleSort_sorted_counterexample:
  "bubbleSort wide_input = Some wide_input \<and>
   (4294967296::nat) < 4294967297 \<and> 4294967297 < length wide_input \<and>
   \<not> wide_input ! 4294967296 \<le>s wide_input ! 4294967297"
  by (simp add: bubbleSort_wide_input length_wide_input wide_input_nth word_sle_eq)

subsection \<open>C2: the same values\<close>

text \<open>
  C2, as amended: for every sequence of integers whose length is not congruent to
  \<open>2 ^ 31\<close> modulo \<open>2 ^ 32\<close> (every sequence of at most \<open>2 ^ 31 - 1\<close> integers is
  one), \<^verbatim>\<open>bubbleSort\<close> returns, and the multiset of the values of the sequence after the
  call is the multiset of its values before the call: no value is added, removed or altered,
  and each value keeps its multiplicity.
\<close>

theorem bubbleSort_mset:
  assumes "length arr mod 4294967296 \<noteq> 2147483648"
  shows "\<exists>arr'. bubbleSort arr = Some arr' \<and> mset arr' = mset arr"
proof (cases arr)
  case Nil
  then show ?thesis using assms by (simp add: bubbleSort_sweeps)
next
  case (Cons a as)
  then have "pass_count (length arr) < length arr"
    by (intro pass_count_less) simp
  then show ?thesis using assms by (simp add: bubbleSort_sweeps mset_sweeps)
qed

theorem bubbleSort_mset_witness:
  "length [3, 1, 3 :: int32] mod 4294967296 \<noteq> 2147483648 \<and>
   bubbleSort [3, 1, 3] = Some [1, 3, 3] \<and>
   (\<exists>arr'. bubbleSort [3, 1, 3] = Some arr' \<and> mset arr' = mset [3, 1, 3]) \<and>
   length wide_input mod 4294967296 \<noteq> 2147483648 \<and>
   (\<exists>arr'. bubbleSort wide_input = Some arr' \<and> mset arr' = mset wide_input)"
proof -
  have "bubbleSort [3, 1, 3] = Some [1, 3, 3]"
    by (simp add: bubbleSort_def inner_loop.simps outer_loop.simps inner_body_def
        subscript_def swap_def int_add_def int_sub_def word_sless_alt word_sle_eq)
  then show ?thesis
    using bubbleSort_mset [of "[3, 1, 3]"] bubbleSort_mset [of wide_input]
    by (simp add: length_wide_input bubbleSort_wide_input)
qed

text \<open>
  C2 as it is written fails on \<open>overflow_input\<close>: \<open>n\<close> is the least \<^verbatim>\<open>int\<close>, the
  test of the outer loop computes \<open>n - 1\<close>, and the call has no defined result.
\<close>

theorem bubbleSort_mset_counterexample:
  "length overflow_input = 2147483648 \<and>
   bubbleSort overflow_input = None \<and>
   \<not> (\<exists>arr'. bubbleSort overflow_input = Some arr' \<and> mset arr' = mset overflow_input)"
  by (simp add: length_overflow_input bubbleSort_overflow_input)

subsection \<open>C3: the literal of the program\<close>

text \<open>
  C3: on the literal sequence of \<^verbatim>\<open>main\<close>, \<open>[64, 34, 25, 12, 22, 11, 90]\<close>,
  \<^verbatim>\<open>bubbleSort\<close> yields exactly \<open>[11, 12, 22, 25, 34, 64, 90]\<close>.
\<close>

theorem bubbleSort_literal:
  "literal_input = [64, 34, 25, 12, 22, 11, 90] \<and>
   bubbleSort [64, 34, 25, 12, 22, 11, 90] = Some [11, 12, 22, 25, 34, 64, 90]"
  by (simp add: literal_input_def bubbleSort_def inner_loop.simps outer_loop.simps
      inner_body_def subscript_def swap_def int_add_def int_sub_def word_sless_alt word_sle_eq)

subsection \<open>C4: the passes\<close>

text \<open>
  C4, as amended: for every sequence of \<open>n \<le> 2 ^ 31 - 1\<close> integers the outer loop of
  \<^verbatim>\<open>bubbleSort\<close> performs exactly \<open>n - 1\<close> passes when \<open>n \<ge> 1\<close>, and none when
  \<open>n = 0\<close>. The bound of the inner loop in pass \<open>k\<close> (counted from 0) is \<open>n - 1 - k\<close>,
  one less in each pass. After pass \<open>k\<close> the last \<open>k + 1\<close> positions hold values that are
  in order and at least as large as every value before them, and they are the values the
  sorted result has at these positions. The vector after the last pass is the result of
  \<^verbatim>\<open>bubbleSort\<close>.
\<close>

theorem bubbleSort_passes:
  assumes "length arr < 2147483648"
  shows "\<exists>final. bubbleSort arr = Some final \<and>
           final = last (arr # map snd (bubbleSort_trace arr)) \<and>
           length (bubbleSort_trace arr) = length arr - 1 \<and>
           (\<forall>k. k < length arr - 1 \<longrightarrow>
              sint (fst (bubbleSort_trace arr ! k)) = int (length arr) - 1 - int k \<and>
              (\<forall>u v. u < v \<and> length arr - Suc k \<le> v \<and> v < length arr \<longrightarrow>
                 snd (bubbleSort_trace arr ! k) ! u \<le>s snd (bubbleSort_trace arr ! k) ! v) \<and>
              (\<forall>v. length arr - Suc k \<le> v \<and> v < length arr \<longrightarrow>
                 snd (bubbleSort_trace arr ! k) ! v = final ! v))"
proof -
  let ?p = "pass_count (length arr)"
  let ?final = "sweeps sint ?p 0 ?p arr"
  note len = small_length [OF assms]
  have p: "?p = length arr - 1"
    using assms by (rule pass_count_small)
  have "sint (fst (bubbleSort_trace arr ! k)) = int (length arr) - 1 - int k \<and>
        (\<forall>u v. u < v \<and> length arr - Suc k \<le> v \<and> v < length arr \<longrightarrow>
           snd (bubbleSort_trace arr ! k) ! u \<le>s snd (bubbleSort_trace arr ! k) ! v) \<and>
        (\<forall>v. length arr - Suc k \<le> v \<and> v < length arr \<longrightarrow>
           snd (bubbleSort_trace arr ! k) ! v = ?final ! v)"
    if k: "k < length arr - 1" for k
  proof -
    let ?t = "sweeps sint ?p 0 (Suc k) arr"
    have kp: "k < ?p" using k p by simp
    have pl: "?p < length arr" using k p by simp
    have t: "snd (bubbleSort_trace arr ! k) = ?t"
      using len kp by (rule bubbleSort_trace_nth)
    have 1: "sint (fst (bubbleSort_trace arr ! k)) = int (length arr) - 1 - int k"
      using bubbleSort_trace_nth(1) [OF len kp] p k by simp
    have 2: "?t ! u \<le>s ?t ! v" if "u < v" "length arr - Suc k \<le> v" "v < length arr" for u v
    proof -
      have "?p - Suc k < v" "v \<le> ?p" using that kp p by simp_all
      then show ?thesis
        using sweeps_done [OF pl, of "Suc k" u v sint] kp that(1) by (simp add: word_sle_eq)
    qed
    have 3: "?t ! v = ?final ! v" if "length arr - Suc k \<le> v" "v < length arr" for v
    proof -
      have "?final = sweeps sint ?p (Suc k) ?p ?t"
        using kp by (intro sweeps_split) simp_all
      moreover have "?p - Suc k < v" using that kp p by simp
      ultimately show ?thesis by (simp add: sweeps_nth_above)
    qed
    show ?thesis using 1 2 3 by (simp add: t)
  qed
  moreover have "bubbleSort arr = Some ?final"
    using len by (rule bubbleSort_sweeps)
  moreover have "?final = last (arr # map snd (bubbleSort_trace arr))"
    by (simp only: last_bubbleSort_trace [OF len])
  moreover have "length (bubbleSort_trace arr) = length arr - 1"
    by (simp only: length_bubbleSort_trace [OF len] p)
  ultimately show ?thesis by blast
qed

theorem bubbleSort_passes_witness:
  "length [3, 1, 2 :: int32] < 2147483648 \<and>
   bubbleSort [3, 1, 2] = Some (last ([3, 1, 2] # map snd (bubbleSort_trace [3, 1, 2]))) \<and>
   length (bubbleSort_trace [3, 1, 2]) = 2 \<and>
   bubbleSort_trace [3, 1, 2] = [(2, [1, 2, 3]), (1, [1, 2, 3])]"
  using bubbleSort_passes [of "[3, 1, 2]"]
  by (simp add: bubbleSort_trace_def outer_trace.simps inner_loop.simps
      inner_body_def subscript_def swap_def int_add_def int_sub_def word_sless_alt word_sle_eq)

text \<open>
  C4 as it is written fails on the empty sequence, where the loop performs no pass and
  \<open>n - 1\<close> is \<open>- 1\<close>, and on \<open>wide_input\<close>, where \<open>n\<close> is 2 and the loop performs
  one pass on a sequence of \<open>2 ^ 32 + 2\<close> elements.
\<close>

theorem bubbleSort_passes_counterexample:
  "length (bubbleSort_trace []) = 0 \<and>
   int (length (bubbleSort_trace [])) \<noteq> int (length ([] :: int32 list)) - 1 \<and>
   length wide_input = 4294967298 \<and>
   length (bubbleSort_trace wide_input) = 1 \<and>
   int (length (bubbleSort_trace wide_input)) \<noteq> int (length wide_input) - 1"
  by (simp add: bubbleSort_trace_def length_wide_input outer_trace.simps inner_loop.simps
      inner_body_def subscript_def int_add_def int_sub_def wide_input_nth
      word_sless_alt word_sle_eq)

subsection \<open>C5: printArray\<close>

text \<open>
  C5, as amended: for every sequence of integers, \<^verbatim>\<open>printArray\<close> appends to the output
  the elements in sequence order, each of them followed by a single space, and then a line
  terminator. On a sequence that is not empty this is the elements separated by a single
  space, then one more space, then the line terminator; on the empty sequence it is the
  line terminator alone.
\<close>

theorem printArray_output:
  "printArray arr out
     = out @ concat (map (\<lambda>num. show_int (sint num) @ '' '') arr) @ [CHR 0x0A] \<and>
   printArray arr out
     = out @ (if arr = [] then []
              else separated '' '' (map (\<lambda>num. show_int (sint num)) arr) @ '' '')
           @ [CHR 0x0A]"
proof -
  have c: "concat (map (\<lambda>num. show_int (sint num) @ '' '') arr)
      = concat (map (\<lambda>x. x @ '' '') (map (\<lambda>num. show_int (sint num)) arr))"
    by (simp add: comp_def)
  show ?thesis
  proof (cases "arr = []")
    case True
    then show ?thesis by (simp add: printArray_def)
  next
    case False
    then show ?thesis
      using concat_separated [of "map (\<lambda>num. show_int (sint num)) arr" "'' ''"]
      by (simp add: printArray_def print_loop_concat c del: map_map)
  qed
qed

theorem printArray_output_witness:
  "printArray [64, 34, -25] [] = ''64 34 -25 '' @ [CHR 0x0A]"
  using printArray_output [of "[64, 34, -25]" "[]"]
  by (simp add: show_int_def digits.simps digit_char_def)

text \<open>
  C5 as it is written fails on \<open>[64, 34]\<close>: the program writes a space after 34, before
  the line terminator.
\<close>

theorem printArray_spec_counterexample:
  "printArray [64, 34] [] = ''64 34 '' @ [CHR 0x0A] \<and>
   printArray_spec [64, 34] = ''64 34'' @ [CHR 0x0A] \<and>
   printArray [64, 34] [] \<noteq> printArray_spec [64, 34]"
  by (simp add: printArray_def printArray_spec_def show_int_def digits.simps digit_char_def)

subsection \<open>C6: a sorted sequence\<close>

text \<open>
  C6, as amended: for every sequence that is already in non-decreasing order and whose
  length is not congruent to \<open>2 ^ 31\<close> modulo \<open>2 ^ 32\<close> (every sequence of at most
  \<open>2 ^ 31 - 1\<close> integers is one), \<^verbatim>\<open>bubbleSort\<close> yields the identical sequence.
\<close>

theorem bubbleSort_sorted_input:
  assumes "length arr mod 4294967296 \<noteq> 2147483648"
    and "\<forall>i j. i < j \<and> j < length arr \<longrightarrow> arr ! i \<le>s arr ! j"
  shows "bubbleSort arr = Some arr"
proof (cases arr)
  case Nil
  then show ?thesis using assms(1) by (simp add: bubbleSort_sweeps)
next
  case (Cons a as)
  then have p: "pass_count (length arr) < length arr"
    by (intro pass_count_less) simp
  have "\<forall>j. Suc j < length arr \<longrightarrow> \<not> sint (arr ! Suc j) < sint (arr ! j)"
    using assms(2) by (auto simp: word_sle_eq not_less)
  then show ?thesis
    using p assms(1) by (simp add: bubbleSort_sweeps sweeps_id)
qed

theorem bubbleSort_sorted_input_witness: "bubbleSort [1, 2, 2, 5] = Some [1, 2, 2, 5]"
proof (rule bubbleSort_sorted_input)
  show "length [1, 2, 2, 5 :: int32] mod 4294967296 \<noteq> 2147483648"
    by simp
  have "sorted_wrt (\<le>s) [1, 2, 2, 5 :: int32]"
    by (simp add: word_sle_eq)
  then show "\<forall>i j. i < j \<and> j < length [1, 2, 2, 5 :: int32]
      \<longrightarrow> [1, 2, 2, 5 :: int32] ! i \<le>s [1, 2, 2, 5] ! j"
    by (simp only: sorted_wrt_iff_nth_less) blast
qed

text \<open>
  C6 as it is written fails on \<open>overflow_input\<close>, which is in non-decreasing order: the
  call has no defined result.
\<close>

theorem bubbleSort_sorted_input_counterexample:
  "length overflow_input = 2147483648 \<and>
   \<not> (\<exists>i j. i < j \<and> j < length overflow_input
          \<and> \<not> overflow_input ! i \<le>s overflow_input ! j) \<and>
   bubbleSort overflow_input = None \<and>
   bubbleSort overflow_input \<noteq> Some overflow_input"
proof -
  have "overflow_input ! i \<le>s overflow_input ! j" if "i < j" "j < length overflow_input" for i j
    using that by (simp add: overflow_input_def)
  then have "\<not> (\<exists>i j. i < j \<and> j < length overflow_input
          \<and> \<not> overflow_input ! i \<le>s overflow_input ! j)"
    by blast
  then show ?thesis
    by (simp only: length_overflow_input bubbleSort_overflow_input) simp
qed

subsection \<open>C7: the empty sequence and the sequence of one element\<close>

text \<open>
  C7: \<^verbatim>\<open>bubbleSort\<close> yields the empty sequence on the empty sequence and the same
  single element on a sequence of one element; on both the outer loop performs no pass.
\<close>

theorem bubbleSort_empty_singleton:
  "bubbleSort [] = Some [] \<and> bubbleSort [x] = Some [x] \<and>
   bubbleSort_trace [] = [] \<and> bubbleSort_trace [x] = []"
  by (simp add: bubbleSort_def bubbleSort_trace_def outer_loop.simps outer_trace.simps
      int_sub_def word_sless_alt)

subsection \<open>C8: duplicates\<close>

text \<open>
  C8: on the sequence \<open>[5, 3, 5, 1]\<close>, \<^verbatim>\<open>bubbleSort\<close> yields exactly
  \<open>[1, 3, 5, 5]\<close>, with both copies of 5.
\<close>

theorem bubbleSort_duplicates: "bubbleSort [5, 3, 5, 1] = Some [1, 3, 5, 5]"
  by (simp add: bubbleSort_def inner_loop.simps outer_loop.simps
      inner_body_def subscript_def swap_def int_add_def int_sub_def word_sless_alt word_sle_eq)

subsection \<open>C9: termination and exit status\<close>

text \<open>
  C9, as amended: for every sequence of integers whose length is not congruent to
  \<open>2 ^ 31\<close> modulo \<open>2 ^ 32\<close> (every sequence of at most \<open>2 ^ 31 - 1\<close> integers is
  one), \<^verbatim>\<open>bubbleSort\<close> returns, with no arithmetic outside the range of \<^verbatim>\<open>int\<close> and
  no read outside the vector; and \<^verbatim>\<open>main\<close> ends with the exit status 0, after it has
  written the two labelled lines.
\<close>

theorem bubbleSort_returns:
  assumes "length arr mod 4294967296 \<noteq> 2147483648"
  shows "(\<exists>arr'. bubbleSort arr = Some arr') \<and>
         main = Some (label_before @ ''64 34 25 12 22 11 90 '' @ [CHR 0x0A]
                      @ label_after @ ''11 12 22 25 34 64 90 '' @ [CHR 0x0A], 0)"
  using assms by (simp add: bubbleSort_sweeps main_run)

theorem bubbleSort_returns_witness:
  "length [3, 1, 2 :: int32] mod 4294967296 \<noteq> 2147483648 \<and>
   bubbleSort [3, 1, 2] = Some [1, 2, 3] \<and>
   length wide_input mod 4294967296 \<noteq> 2147483648 \<and>
   bubbleSort wide_input = Some wide_input \<and>
   main = Some (label_before @ ''64 34 25 12 22 11 90 '' @ [CHR 0x0A]
                @ label_after @ ''11 12 22 25 34 64 90 '' @ [CHR 0x0A], 0)"
proof -
  have "bubbleSort [3, 1, 2] = Some [1, 2, 3]"
    by (simp add: bubbleSort_def inner_loop.simps outer_loop.simps inner_body_def
        subscript_def swap_def int_add_def int_sub_def word_sless_alt word_sle_eq)
  then show ?thesis
    using bubbleSort_returns [of "[3, 1, 2]"] bubbleSort_returns [of wide_input]
    by (simp add: length_wide_input bubbleSort_wide_input)
qed

text \<open>
  C9 as it is written fails on \<open>overflow_input\<close>: \<open>n - 1\<close> is outside the range of
  \<^verbatim>\<open>int\<close>, and the call has no defined result.
\<close>

theorem bubbleSort_returns_counterexample:
  "length overflow_input = 2147483648 \<and>
   int_sub (word_of_nat (length overflow_input)) 1 = None \<and>
   bubbleSort overflow_input = None \<and>
   \<not> (\<exists>arr'. bubbleSort overflow_input = Some arr')"
  by (simp add: length_overflow_input bubbleSort_overflow_input int_sub_def)

subsection \<open>C10: equal values keep their order\<close>



end
